theory Spec2Isabelle
  imports Main "HOL-Library.Word"
begin

section \<open>The lazily created singleton of singleton.h\<close>

text \<open>
  \<^verbatim>\<open>Singleton<Type, Traits, DifferentiatingType>\<close> keeps one static
  \<^verbatim>\<open>subtle::AtomicWord instance_\<close>, initialised to 0, and its only accessor
  \<^verbatim>\<open>get()\<close> works on that word with three atomic operations. The embedding
  follows the header statement by statement:
  \<^item> the static words of all instantiations are one function from the
    differentiating type to a machine word (a name with a trailing underscore is not an
    Isabelle constant, so the field is \<open>instance_word\<close>);
  \<^item> a call of \<^verbatim>\<open>get()\<close> is a small state machine whose states are the program
    points between two accesses to the shared word, so that calls made by several threads
    interleave between any two accesses;
  \<^item> an interleaving is a schedule, the list of the calls that take the next step.
  The atomic operations are single steps on one word and schedules are sequentially
  consistent. Acquire and release orderings say when the constructed object becomes
  visible to a reader; the object's contents are not part of this model.
\<close>

subsection \<open>The state word, the traits and the process state\<close>

text \<open>
  \<^verbatim>\<open>subtle::AtomicWord\<close> is the pointer-sized integer of the platform; the makefile
  builds with \<^verbatim>\<open>-DARCH_CPU_64_BITS\<close>. No arithmetic is done on it: the code only
  compares it with 0 and with the marker, and casts it from and to \<^verbatim>\<open>Type*\<close>.
\<close>

type_synonym AtomicWord = "64 word"

text \<open>\<^verbatim>\<open>static const subtle::AtomicWord kBeingCreatedMarker = 1;\<close>\<close>

definition kBeingCreatedMarker :: AtomicWord where
  "kBeingCreatedMarker = 1"

text \<open>
  The traits of an instantiation. \<^verbatim>\<open>static Type* New()\<close> takes no argument and may
  answer differently from call to call, so its model is the pointer (as a word, after
  \<^verbatim>\<open>reinterpret_cast\<close>) returned by the call that follows \<open>k\<close> earlier calls.
  \<^verbatim>\<open>static void Delete(Type*)\<close> appears below as \<open>Traits_Delete\<close>.
\<close>

record Traits =
  New :: "nat \<Rightarrow> AtomicWord"
  kRegisterAtExit :: bool

text \<open>
  \<^verbatim>\<open>DefaultSingletonTraits<Type>\<close>: \<^verbatim>\<open>New()\<close> is \<^verbatim>\<open>return new Type();\<close>
  and \<^verbatim>\<open>kRegisterAtExit = false\<close>. The allocator is a parameter.
\<close>

definition DefaultSingletonTraits :: "(nat \<Rightarrow> AtomicWord) \<Rightarrow> Traits" where
  "DefaultSingletonTraits operator_new = \<lparr>New = operator_new, kRegisterAtExit = False\<rparr>"

text \<open>
  What the process holds: the state word of every instantiation (indexed by the
  differentiating type), how often \<^verbatim>\<open>Traits::New()\<close> has been invoked, the pointers
  handed to \<^verbatim>\<open>Traits::Delete\<close>, and the callbacks enqueued with the at-exit manager
  (each is \<^verbatim>\<open>OnExit\<close> of one instantiation).
\<close>

record 'd world =
  instance_word :: "'d \<Rightarrow> AtomicWord"
  New_calls :: nat
  Delete_calls :: "AtomicWord list"
  AtExit_callbacks :: "'d list"

text \<open>
  \<^verbatim>\<open>subtle::AtomicWord Singleton<...>::instance_ = 0;\<close> for every instantiation,
  before anything has run.
\<close>

definition fresh :: "'d world" where
  "fresh = \<lparr>instance_word = (\<lambda>_. 0), New_calls = 0, Delete_calls = [], AtExit_callbacks = []\<rparr>"

subsection \<open>The operations that get() is written with\<close>

text \<open>
  The three atomic operations are those of \<^verbatim>\<open>atomicops.h\<close>, which the header
  includes and which is absent from the sources; the pointer \<^verbatim>\<open>&instance_\<close> they
  take is the differentiating type \<open>p\<close> of the instantiation.
\<close>

text \<open>
  Modelled from the spec: \<^verbatim>\<open>subtle::Acquire_Load\<close> of the absent \<^verbatim>\<open>atomicops.h\<close>,
  the spec's "load the state word with acquire-ordering semantics": the value of the word.
\<close>

definition Acquire_Load :: "'d \<Rightarrow> 'd world \<Rightarrow> AtomicWord" where
  "Acquire_Load p s = instance_word s p"

text \<open>
  Modelled from the spec: \<^verbatim>\<open>subtle::Release_Store\<close> of the absent \<^verbatim>\<open>atomicops.h\<close>,
  the spec's "release-store of the instance's address into the state word".
\<close>

definition Release_Store :: "'d \<Rightarrow> AtomicWord \<Rightarrow> 'd world \<Rightarrow> 'd world" where
  "Release_Store p v s = s\<lparr>instance_word := (instance_word s)(p := v)\<rparr>"

text \<open>
  Modelled from the spec: \<^verbatim>\<open>subtle::Acquire_CompareAndSwap\<close> of the absent
  \<^verbatim>\<open>atomicops.h\<close>, the spec's "atomic operation that conditionally updates a value only
  if it currently equals an expected value, reporting success/failure". It reports by
  returning the value it found, which \<^verbatim>\<open>get()\<close> compares with 0, the expected value.
\<close>

definition Acquire_CompareAndSwap ::
    "'d \<Rightarrow> AtomicWord \<Rightarrow> AtomicWord \<Rightarrow> 'd world \<Rightarrow> AtomicWord \<times> 'd world" where
  "Acquire_CompareAndSwap p old_value new_value s =
     (let prev = instance_word s p
      in (prev, if prev = old_value then Release_Store p new_value s else s))"

text \<open>
  One invocation of \<^verbatim>\<open>Traits::New()\<close>: the pointer it returns, and the count. The
  invocation is one step of the call and does not touch the state word, which is private to
  the instantiation. A \<^verbatim>\<open>New()\<close> that never returns is a creator that takes no
  further step.
\<close>

definition Traits_New :: "Traits \<Rightarrow> 'd world \<Rightarrow> AtomicWord \<times> 'd world" where
  "Traits_New T s = (New T (New_calls s), s\<lparr>New_calls := Suc (New_calls s)\<rparr>)"

text \<open>One invocation of \<^verbatim>\<open>Traits::Delete(x)\<close>, logged.\<close>

definition Traits_Delete :: "AtomicWord \<Rightarrow> 'd world \<Rightarrow> 'd world" where
  "Traits_Delete x s = s\<lparr>Delete_calls := Delete_calls s @ [x]\<rparr>"

text \<open>
  Modelled from the spec: the at-exit manager, an external collaborator of which the spec
  keeps the contract "register one callback": \<^verbatim>\<open>AtExitManager::RegisterCallback(OnExit, NULL)\<close>
  enqueues the \<^verbatim>\<open>OnExit\<close> of the instantiation \<open>d\<close>.
\<close>

definition AtExitManager_RegisterCallback :: "'d \<Rightarrow> 'd world \<Rightarrow> 'd world" where
  "AtExitManager_RegisterCallback d s = s\<lparr>AtExit_callbacks := AtExit_callbacks s @ [d]\<rparr>"

subsection \<open>One call of get(), step by step\<close>

text \<open>
  The program points of a call of \<^verbatim>\<open>get()\<close>: before the acquire-load, before the
  compare-and-swap, before \<^verbatim>\<open>Traits::New()\<close>, before the release-store (holding
  \<^verbatim>\<open>newval\<close>), inside \<^verbatim>\<open>internal::WaitForInstance\<close>, and returned (holding the
  pointer handed to the caller).
\<close>

datatype pc =
    AtLoad
  | AtCompareAndSwap
  | AtNew
  | AtStore AtomicWord
  | AtWait
  | Returned AtomicWord

text \<open>
  Modelled from the spec: \<^verbatim>\<open>internal::WaitForInstance\<close> is declared in the header and
  defined out of line, in a file that is absent. The spec, 4.1 step 4: "enter a wait loop
  [...] repeatedly re-loading the state word with acquire ordering until it transitions
  away from BeingCreated". One turn of that loop: load the word; leave the loop with the
  value when it is not the marker, otherwise yield and load again.
\<close>

definition WaitForInstance_step :: "'d \<Rightarrow> 'd world \<Rightarrow> pc" where
  "WaitForInstance_step d s =
     (let value = Acquire_Load d s
      in if value \<noteq> kBeingCreatedMarker then Returned value else AtWait)"

text \<open>
  \<^verbatim>\<open>
  subtle::AtomicWord value = subtle::Acquire_Load(&instance_);
  if (value != 0 && value != internal::kBeingCreatedMarker) {
    return reinterpret_cast<Type*>(value);
  }
  if (subtle::Acquire_CompareAndSwap(&instance_, 0,
                                     internal::kBeingCreatedMarker) == 0) {
    Type* newval = Traits::New();
    subtle::Release_Store(&instance_,
                          reinterpret_cast<subtle::AtomicWord>(newval));
    //if (newval != NULL && Traits::kRegisterAtExit)
      //AtExitManager::RegisterCallback(OnExit, NULL);
    return newval;
  }
  value = internal::WaitForInstance(&instance_);
  return reinterpret_cast<Type*>(value);
  \<close>
  The registration with the at-exit manager is commented out in the source, so the step
  after the release-store is the return; \<open>kRegisterAtExit\<close> is read nowhere.
\<close>

fun get_step :: "Traits \<Rightarrow> 'd \<Rightarrow> pc \<times> 'd world \<Rightarrow> pc \<times> 'd world" where
  "get_step T d (AtLoad, s) =
     (let value = Acquire_Load d s
      in if value \<noteq> 0 \<and> value \<noteq> kBeingCreatedMarker then (Returned value, s)
         else (AtCompareAndSwap, s))"
| "get_step T d (AtCompareAndSwap, s) =
     (case Acquire_CompareAndSwap d 0 kBeingCreatedMarker s of
        (prev, s') \<Rightarrow> if prev = 0 then (AtNew, s') else (AtWait, s'))"
| "get_step T d (AtNew, s) =
     (case Traits_New T s of (newval, s') \<Rightarrow> (AtStore newval, s'))"
| "get_step T d (AtStore newval, s) = (Returned newval, Release_Store d newval s)"
| "get_step T d (AtWait, s) = (WaitForInstance_step d s, s)"
| "get_step T d (Returned p, s) = (Returned p, s)"

text \<open>
  \<^verbatim>\<open>static void OnExit(void* /*unused*/)\<close>: both statements of its body are commented
  out in the source,
  \<^verbatim>\<open>
  //Traits::Delete(reinterpret_cast<Type*>(subtle::NoBarrier_Load(&instance_)));
  //instance_ = 0;
  \<close>
\<close>

definition OnExit :: "Traits \<Rightarrow> 'd \<Rightarrow> 'd world \<Rightarrow> 'd world" where
  "OnExit T d s = s"

subsection \<open>Calls made by several threads\<close>

text \<open>
  A configuration is the process state and the program point of every call of
  \<^verbatim>\<open>get()\<close> under way on the instantiation \<open>d\<close>; call \<open>t\<close> is the \<open>t\<close>-th of
  the list. \<open>step\<close> lets call \<open>t\<close> make its next access, \<open>run\<close> follows a schedule;
  an entry of the schedule that names no call changes nothing, and so does a step of a call
  that has returned. Calls that follow one another in one thread are calls of which the
  first has returned before the second takes its first step.
\<close>

record 'd config =
  shared :: "'d world"
  calls :: "pc list"

definition start :: "'d world \<Rightarrow> nat \<Rightarrow> 'd config" where
  "start s N = \<lparr>shared = s, calls = replicate N AtLoad\<rparr>"

definition step :: "Traits \<Rightarrow> 'd \<Rightarrow> nat \<Rightarrow> 'd config \<Rightarrow> 'd config" where
  "step T d t c =
     (if t < length (calls c)
      then (case get_step T d (calls c ! t, shared c) of
              (pc', s') \<Rightarrow> \<lparr>shared = s', calls = (calls c)[t := pc']\<rparr>)
      else c)"

definition run :: "Traits \<Rightarrow> 'd \<Rightarrow> nat list \<Rightarrow> 'd config \<Rightarrow> 'd config" where
  "run T d sched c = fold (step T d) sched c"

text \<open>The value of the state word of instantiation \<open>d\<close> in a configuration.\<close>

definition word_of :: "'d \<Rightarrow> 'd config \<Rightarrow> AtomicWord" where
  "word_of d c = instance_word (shared c) d"

subsection \<open>Who is creating, and what holds at every moment\<close>

text \<open>
  A call is the creator from its successful compare-and-swap to its release-store: the two
  program points between them.
\<close>

fun creator :: "pc \<Rightarrow> bool" where
  "creator AtNew = True"
| "creator (AtStore v) = True"
| "creator _ = False"

text \<open>
  The word as a spinlock: at most one call is the creator, and while there is one the
  word holds the marker. This holds whatever \<^verbatim>\<open>New()\<close> returns.
\<close>

definition mutex_inv :: "'d \<Rightarrow> 'd config \<Rightarrow> bool" where
  "mutex_inv d c \<longleftrightarrow>
     (\<forall>t<length (calls c). \<forall>u<length (calls c).
        creator (calls c ! t) \<and> creator (calls c ! u) \<longrightarrow> t = u) \<and>
     (\<forall>t<length (calls c). creator (calls c ! t) \<longrightarrow> word_of d c = kBeingCreatedMarker)"

text \<open>
  What holds of a call at each program point when \<^verbatim>\<open>New()\<close> returns the address
  \<open>a\<close> of an instance, after \<open>k\<close> earlier invocations: \<open>w\<close> is the value of the
  state word and \<open>n\<close> the number of invocations of \<^verbatim>\<open>New()\<close> so far.
\<close>

fun call_ok :: "AtomicWord \<Rightarrow> nat \<Rightarrow> AtomicWord \<Rightarrow> nat \<Rightarrow> pc \<Rightarrow> bool" where
  "call_ok a k w n AtLoad = True"
| "call_ok a k w n AtCompareAndSwap = True"
| "call_ok a k w n AtNew = (w = kBeingCreatedMarker \<and> n = k)"
| "call_ok a k w n (AtStore v) = (w = kBeingCreatedMarker \<and> v = a \<and> n = Suc k)"
| "call_ok a k w n AtWait = (w \<noteq> 0)"
| "call_ok a k w n (Returned p) = (p = a \<and> w = a)"

text \<open>
  The life of the word when \<^verbatim>\<open>New()\<close> returns an instance: every call is where the
  word allows it to be, the word is 0 only before the creation, holds the instance only
  after it, and holds the marker only while some call is creating.
\<close>

definition created_inv :: "Traits \<Rightarrow> 'd \<Rightarrow> nat \<Rightarrow> 'd config \<Rightarrow> bool" where
  "created_inv T d k c \<longleftrightarrow>
     (\<forall>t<length (calls c).
        call_ok (New T k) k (word_of d c) (New_calls (shared c)) (calls c ! t)) \<and>
     (word_of d c = 0 \<longrightarrow> New_calls (shared c) = k) \<and>
     (word_of d c \<noteq> 0 \<and> word_of d c \<noteq> kBeingCreatedMarker \<longrightarrow>
        word_of d c = New T k \<and> New_calls (shared c) = Suc k) \<and>
     (word_of d c = kBeingCreatedMarker \<longrightarrow> (\<exists>t<length (calls c). creator (calls c ! t)))"

subsection \<open>Traits used as concrete inputs\<close>

text \<open>A policy that asks for registration at exit and allocates at distinct addresses.\<close>

definition RegisteringTraits :: Traits where
  "RegisteringTraits = \<lparr>New = (\<lambda>k. 4096 + 16 * of_nat k), kRegisterAtExit = True\<rparr>"

text \<open>A policy whose \<^verbatim>\<open>New()\<close> returns \<^verbatim>\<open>NULL\<close>.\<close>

definition NullTraits :: Traits where
  "NullTraits = \<lparr>New = (\<lambda>k. 0), kRegisterAtExit = False\<rparr>"

section \<open>Basic facts\<close>

lemmas atomic_defs = Acquire_Load_def Release_Store_def Acquire_CompareAndSwap_def
  Traits_New_def WaitForInstance_step_def kBeingCreatedMarker_def

lemma run_Nil [simp]: "run T d [] c = c"
  by (simp add: run_def)

lemma run_Cons [simp]: "run T d (t # sched) c = run T d sched (step T d t c)"
  by (simp add: run_def)

lemma run_append: "run T d (a @ b) c = run T d b (run T d a c)"
  by (simp add: run_def)

lemma run_snoc: "run T d (a @ [t]) c = step T d t (run T d a c)"
  by (simp add: run_def)

lemma step_alt:
  "step T d t c =
     (if t < length (calls c)
      then \<lparr>shared = snd (get_step T d (calls c ! t, shared c)),
            calls = (calls c)[t := fst (get_step T d (calls c ! t, shared c))]\<rparr>
      else c)"
  by (simp add: step_def split: prod.splits)

lemma step_at:
  "t < length (calls c) \<Longrightarrow>
   step T d t c = \<lparr>shared = snd (get_step T d (calls c ! t, shared c)),
         calls = (calls c)[t := fst (get_step T d (calls c ! t, shared c))]\<rparr>"
  by (simp add: step_alt)

lemma length_calls_step [simp]: "length (calls (step T d t c)) = length (calls c)"
  by (simp add: step_alt)

lemma length_calls_run [simp]: "length (calls (run T d sched c)) = length (calls c)"
  by (induction sched arbitrary: c) simp_all

text \<open>What no step of \<^verbatim>\<open>get()\<close> touches.\<close>

lemma get_step_Delete_calls: "Delete_calls (snd (get_step T d (p, s))) = Delete_calls s"
  by (cases p) (simp_all add: atomic_defs Let_def)

lemma get_step_AtExit_callbacks:
  "AtExit_callbacks (snd (get_step T d (p, s))) = AtExit_callbacks s"
  by (cases p) (simp_all add: atomic_defs Let_def)


lemma step_Delete_calls: "Delete_calls (shared (step T d t c)) = Delete_calls (shared c)"
  using get_step_Delete_calls [of T d "calls c ! t" "shared c"]
  by (simp add: step_alt)

lemma step_AtExit_callbacks:
  "AtExit_callbacks (shared (step T d t c)) = AtExit_callbacks (shared c)"
  using get_step_AtExit_callbacks [of T d "calls c ! t" "shared c"]
  by (simp add: step_alt)


lemma run_Delete_calls: "Delete_calls (shared (run T d sched c)) = Delete_calls (shared c)"
  by (induction sched arbitrary: c) (simp_all add: step_Delete_calls)

lemma run_AtExit_callbacks:
  "AtExit_callbacks (shared (run T d sched c)) = AtExit_callbacks (shared c)"
  by (induction sched arbitrary: c) (simp_all add: step_AtExit_callbacks)


text \<open>No step of \<^verbatim>\<open>get()\<close> reads \<open>kRegisterAtExit\<close>.\<close>

lemma get_step_ignores_kRegisterAtExit:
  "get_step (T\<lparr>kRegisterAtExit := b\<rparr>) d ps = get_step T d ps"
  by (cases "(T, d, ps)" rule: get_step.cases) (simp_all add: Traits_New_def)

lemma run_ignores_kRegisterAtExit:
  "run (T\<lparr>kRegisterAtExit := b\<rparr>) d sched c = run T d sched c"
  by (induction sched arbitrary: c) (simp_all add: step_def get_step_ignores_kRegisterAtExit)

text \<open>The spinlock invariant holds at the start and after every step.\<close>

lemma mutex_inv_start: "instance_word s d = 0 \<Longrightarrow> mutex_inv d (start s N)"
  by (simp add: mutex_inv_def start_def)

lemma mutex_inv_step:
  assumes "mutex_inv d c"
  shows "mutex_inv d (step T d t c)"
proof (cases "t < length (calls c)")
  case False
  then show ?thesis using assms by (simp add: step_def)
next
  case True
  show ?thesis
  proof (cases "calls c ! t")
    case AtLoad
    with True assms show ?thesis
      by (auto simp: mutex_inv_def step_at atomic_defs word_of_def Let_def nth_list_update)
  next
    case AtCompareAndSwap
    with True assms show ?thesis
      by (auto simp: mutex_inv_def step_at atomic_defs word_of_def Let_def nth_list_update)
  next
    case AtNew
    with True assms show ?thesis
      by (auto simp: mutex_inv_def step_at atomic_defs word_of_def Let_def nth_list_update)
  next
    case (AtStore v)
    with True assms show ?thesis
      by (auto simp: mutex_inv_def step_at atomic_defs word_of_def Let_def nth_list_update)
  next
    case AtWait
    with True assms show ?thesis
      by (auto simp: mutex_inv_def step_at atomic_defs word_of_def Let_def nth_list_update)
  next
    case (Returned p)
    with True assms show ?thesis
      by (auto simp: mutex_inv_def step_at atomic_defs word_of_def Let_def nth_list_update)
  qed
qed

lemma mutex_inv_run: "mutex_inv d c \<Longrightarrow> mutex_inv d (run T d sched c)"
  by (induction sched arbitrary: c) (simp_all add: mutex_inv_step)

text \<open>While a call is the creator, the steps of the other calls change nothing of the process.\<close>

lemma creator_undisturbed_step:
  assumes "mutex_inv d c" and "t < length (calls c)" and "creator (calls c ! t)" and "u \<noteq> t"
  shows "shared (step T d u c) = shared c \<and> calls (step T d u c) ! t = calls c ! t"
proof (cases "u < length (calls c)")
  case False
  then show ?thesis by (simp add: step_def)
next
  case True
  have w: "word_of d c = kBeingCreatedMarker" and nc: "\<not> creator (calls c ! u)"
    using assms True by (auto simp: mutex_inv_def)
  show ?thesis
    using True w nc assms(4)
    by (cases "calls c ! u") (simp_all add: step_at atomic_defs word_of_def Let_def)
qed

lemma creator_undisturbed_run:
  assumes "mutex_inv d c" and "t < length (calls c)" and "creator (calls c ! t)" and "t \<notin> set a"
  shows "shared (run T d a c) = shared c \<and> calls (run T d a c) ! t = calls c ! t"
  using assms
proof (induction a arbitrary: c)
  case Nil
  then show ?case by simp
next
  case (Cons u a)
  have ut: "u \<noteq> t" using Cons.prems(4) by auto
  have st: "shared (step T d u c) = shared c \<and> calls (step T d u c) ! t = calls c ! t"
    using creator_undisturbed_step [OF Cons.prems(1,2,3) ut] .
  have "shared (run T d a (step T d u c)) = shared (step T d u c)
      \<and> calls (run T d a (step T d u c)) ! t = calls (step T d u c) ! t"
    using Cons.prems st by (intro Cons.IH) (simp_all add: mutex_inv_step)
  with st show ?case by simp
qed

text \<open>The invariant of a creation that returns an instance.\<close>

lemma created_inv_start:
  "instance_word s d = 0 \<Longrightarrow> created_inv T d (New_calls s) (start s N)"
  by (simp add: created_inv_def start_def word_of_def kBeingCreatedMarker_def)

lemma created_invI:
  assumes "\<And>u. u < length (calls c) \<Longrightarrow>
      call_ok (New T k) k (word_of d c) (New_calls (shared c)) (calls c ! u)"
    and "word_of d c = 0 \<Longrightarrow> New_calls (shared c) = k"
    and "word_of d c \<noteq> 0 \<Longrightarrow> word_of d c \<noteq> kBeingCreatedMarker \<Longrightarrow>
      word_of d c = New T k \<and> New_calls (shared c) = Suc k"
    and "word_of d c = kBeingCreatedMarker \<Longrightarrow> \<exists>t<length (calls c). creator (calls c ! t)"
  shows "created_inv T d k c"
  using assms unfolding created_inv_def by blast

lemma created_inv_call:
  "created_inv T d k c \<Longrightarrow> u < length (calls c) \<Longrightarrow>
   call_ok (New T k) k (word_of d c) (New_calls (shared c)) (calls c ! u)"
  by (simp add: created_inv_def)

lemma created_inv_zero: "created_inv T d k c \<Longrightarrow> word_of d c = 0 \<Longrightarrow> New_calls (shared c) = k"
  by (simp add: created_inv_def)

lemma created_inv_created:
  "created_inv T d k c \<Longrightarrow> word_of d c \<noteq> 0 \<Longrightarrow> word_of d c \<noteq> kBeingCreatedMarker \<Longrightarrow>
   word_of d c = New T k \<and> New_calls (shared c) = Suc k"
  by (simp add: created_inv_def)

lemma created_inv_holder:
  "created_inv T d k c \<Longrightarrow> word_of d c = kBeingCreatedMarker \<Longrightarrow>
   \<exists>t<length (calls c). creator (calls c ! t)"
  by (simp add: created_inv_def)

text \<open>A step that leaves the process state alone.\<close>

lemma created_inv_same_world:
  assumes i: "created_inv T d k c"
    and sh: "shared c' = shared c" and cl: "calls c' = (calls c)[t := p']"
    and t: "t < length (calls c)"
    and ok: "call_ok (New T k) k (word_of d c) (New_calls (shared c)) p'"
    and cr: "\<not> creator (calls c ! t)"
  shows "created_inv T d k c'"
proof (rule created_invI)
  have w: "word_of d c' = word_of d c" by (simp add: word_of_def sh)
  fix u assume "u < length (calls c')"
  then have u: "u < length (calls c)" by (simp add: cl)
  show "call_ok (New T k) k (word_of d c') (New_calls (shared c')) (calls c' ! u)"
    using created_inv_call [OF i u] ok t by (simp add: w sh cl nth_list_update)
next
  assume "word_of d c' = 0"
  then show "New_calls (shared c') = k"
    using created_inv_zero [OF i] by (simp add: word_of_def sh)
next
  assume "word_of d c' \<noteq> 0" "word_of d c' \<noteq> kBeingCreatedMarker"
  then show "word_of d c' = New T k \<and> New_calls (shared c') = Suc k"
    using created_inv_created [OF i] by (simp add: word_of_def sh)
next
  assume "word_of d c' = kBeingCreatedMarker"
  then have "word_of d c = kBeingCreatedMarker" by (simp add: word_of_def sh)
  then obtain t0 where t0: "t0 < length (calls c)" "creator (calls c ! t0)"
    using created_inv_holder [OF i] by blast
  with cr have "t0 \<noteq> t" by auto
  with t0 show "\<exists>t<length (calls c'). creator (calls c' ! t)"
    by (auto simp: cl)
qed

lemma mutex_others:
  "mutex_inv d c \<Longrightarrow> t < length (calls c) \<Longrightarrow> creator (calls c ! t) \<Longrightarrow>
   u < length (calls c) \<Longrightarrow> u \<noteq> t \<Longrightarrow> \<not> creator (calls c ! u)"
  unfolding mutex_inv_def by blast

lemma created_inv_step:
  assumes m: "mutex_inv d c" and i: "created_inv T d k c"
    and v0: "New T k \<noteq> 0" and v1: "New T k \<noteq> kBeingCreatedMarker"
  shows "created_inv T d k (step T d t c)"
proof (cases "t < length (calls c)")
  case False
  then show ?thesis using i by (simp add: step_def)
next
  case True
  note ok = created_inv_call [OF i True]
  show ?thesis
  proof (cases "calls c ! t")
    case AtLoad
    show ?thesis
    proof (rule created_inv_same_world [OF i _ _ True])
      show "shared (step T d t c) = shared c"
        using True AtLoad by (simp add: step_at atomic_defs Let_def)
      show "calls (step T d t c) = (calls c)[t :=
          (if word_of d c \<noteq> 0 \<and> word_of d c \<noteq> kBeingCreatedMarker
           then Returned (word_of d c) else AtCompareAndSwap)]"
        using True AtLoad by (simp add: step_at atomic_defs Let_def word_of_def)
      show "call_ok (New T k) k (word_of d c) (New_calls (shared c))
          (if word_of d c \<noteq> 0 \<and> word_of d c \<noteq> kBeingCreatedMarker
           then Returned (word_of d c) else AtCompareAndSwap)"
        using created_inv_created [OF i] by simp
      show "\<not> creator (calls c ! t)" by (simp add: AtLoad)
    qed
  next
    case AtCompareAndSwap
    show ?thesis
    proof (cases "word_of d c = 0")
      case False
      show ?thesis
      proof (rule created_inv_same_world [OF i _ _ True])
        show "shared (step T d t c) = shared c"
          using True AtCompareAndSwap False by (simp add: step_at atomic_defs Let_def word_of_def)
        show "calls (step T d t c) = (calls c)[t := AtWait]"
          using True AtCompareAndSwap False by (simp add: step_at atomic_defs Let_def word_of_def)
        show "call_ok (New T k) k (word_of d c) (New_calls (shared c)) AtWait"
          using False by simp
        show "\<not> creator (calls c ! t)" by (simp add: AtCompareAndSwap)
      qed
    next
      case w0: True
      have cl: "calls (step T d t c) = (calls c)[t := AtNew]"
        and w': "word_of d (step T d t c) = kBeingCreatedMarker"
        and n': "New_calls (shared (step T d t c)) = New_calls (shared c)"
        using True AtCompareAndSwap w0 by (simp_all add: step_at atomic_defs Let_def word_of_def)
      have n: "New_calls (shared c) = k" using created_inv_zero [OF i w0] .
      show ?thesis
      proof (rule created_invI)
        fix u assume "u < length (calls (step T d t c))"
        then have u: "u < length (calls c)" by simp
        show "call_ok (New T k) k (word_of d (step T d t c))
            (New_calls (shared (step T d t c))) (calls (step T d t c) ! u)"
        proof (cases "u = t")
          case True
          then show ?thesis using u by (simp add: cl w' n' n)
        next
          case False
          then show ?thesis using created_inv_call [OF i u] u True v0 w0
            by (cases "calls c ! u") (simp_all add: cl w' n' kBeingCreatedMarker_def)
        qed
      next
        show "\<exists>u<length (calls (step T d t c)). creator (calls (step T d t c) ! u)"
          using True by (intro exI [of _ t]) (simp add: cl)
      qed (simp_all add: w' kBeingCreatedMarker_def)
    qed
  next
    case AtNew
    have w: "word_of d c = kBeingCreatedMarker" and n: "New_calls (shared c) = k"
      using ok by (simp_all add: AtNew)
    have cl: "calls (step T d t c) = (calls c)[t := AtStore (New T k)]"
      and w': "word_of d (step T d t c) = kBeingCreatedMarker"
      and n': "New_calls (shared (step T d t c)) = Suc k"
      using True AtNew w n by (simp_all add: step_at atomic_defs Let_def word_of_def)
    show ?thesis
    proof (rule created_invI)
      fix u assume "u < length (calls (step T d t c))"
      then have u: "u < length (calls c)" by simp
      show "call_ok (New T k) k (word_of d (step T d t c))
          (New_calls (shared (step T d t c))) (calls (step T d t c) ! u)"
      proof (cases "u = t")
        case True
        then show ?thesis using u by (simp add: cl w' n')
      next
        case False
        have "\<not> creator (calls c ! u)"
          using mutex_others [OF m True _ u False] by (simp add: AtNew)
        then show ?thesis using created_inv_call [OF i u] u True False v1 w
          by (cases "calls c ! u") (simp_all add: cl w' n')
      qed
    next
      show "\<exists>u<length (calls (step T d t c)). creator (calls (step T d t c) ! u)"
        using True by (intro exI [of _ t]) (simp add: cl)
    qed (simp_all add: w' kBeingCreatedMarker_def)
  next
    case (AtStore v)
    have w: "word_of d c = kBeingCreatedMarker" and n: "New_calls (shared c) = Suc k"
      and v: "v = New T k"
      using ok by (simp_all add: AtStore)
    have cl: "calls (step T d t c) = (calls c)[t := Returned (New T k)]"
      and w': "word_of d (step T d t c) = New T k"
      and n': "New_calls (shared (step T d t c)) = Suc k"
      using True AtStore w n v by (simp_all add: step_at atomic_defs Let_def word_of_def)
    show ?thesis
    proof (rule created_invI)
      fix u assume "u < length (calls (step T d t c))"
      then have u: "u < length (calls c)" by simp
      show "call_ok (New T k) k (word_of d (step T d t c))
          (New_calls (shared (step T d t c))) (calls (step T d t c) ! u)"
      proof (cases "u = t")
        case True
        then show ?thesis using u by (simp add: cl w' n')
      next
        case False
        have "\<not> creator (calls c ! u)"
          using mutex_others [OF m True _ u False] by (simp add: AtStore)
        then show ?thesis using created_inv_call [OF i u] u True False v0 v1 w
          by (cases "calls c ! u") (simp_all add: cl w' n')
      qed
    qed (simp_all add: w' n' v0 v1)
  next
    case AtWait
    have wn0: "word_of d c \<noteq> 0" using ok by (simp add: AtWait)
    show ?thesis
    proof (rule created_inv_same_world [OF i _ _ True])
      show "shared (step T d t c) = shared c"
        using True AtWait by (simp add: step_at atomic_defs Let_def)
      show "calls (step T d t c) = (calls c)[t :=
          (if word_of d c \<noteq> kBeingCreatedMarker then Returned (word_of d c) else AtWait)]"
        using True AtWait by (simp add: step_at atomic_defs Let_def word_of_def)
      show "call_ok (New T k) k (word_of d c) (New_calls (shared c))
          (if word_of d c \<noteq> kBeingCreatedMarker then Returned (word_of d c) else AtWait)"
        using created_inv_created [OF i] wn0 by auto
      show "\<not> creator (calls c ! t)" by (simp add: AtWait)
    qed
  next
    case (Returned p)
    show ?thesis
    proof (rule created_inv_same_world [OF i _ _ True])
      show "shared (step T d t c) = shared c"
        using True Returned by (simp add: step_at)
      show "calls (step T d t c) = (calls c)[t := Returned p]"
        using True Returned by (simp add: step_at)
      show "call_ok (New T k) k (word_of d c) (New_calls (shared c)) (Returned p)"
        using ok by (simp add: Returned)
      show "\<not> creator (calls c ! t)" by (simp add: Returned)
    qed
  qed
qed

lemma created_inv_run:
  "mutex_inv d c \<Longrightarrow> created_inv T d k c \<Longrightarrow> New T k \<noteq> 0 \<Longrightarrow>
   New T k \<noteq> kBeingCreatedMarker \<Longrightarrow> created_inv T d k (run T d sched c)"
  by (induction sched arbitrary: c) (simp_all add: mutex_inv_step created_inv_step)

lemma reachable_inv:
  assumes "instance_word s d = 0" and "New T (New_calls s) \<noteq> 0"
    and "New T (New_calls s) \<noteq> kBeingCreatedMarker"
  shows "mutex_inv d (run T d sched (start s N))"
    and "created_inv T d (New_calls s) (run T d sched (start s N))"
  using assms
  by (simp_all add: mutex_inv_run mutex_inv_start created_inv_run created_inv_start)

text \<open>The value of the word: 0, the marker, or the instance.\<close>

lemma created_inv_word:
  assumes "created_inv T d k c"
  shows "word_of d c = 0 \<or> word_of d c = kBeingCreatedMarker \<or> word_of d c = New T k"
  using created_inv_created [OF assms] by blast

text \<open>How often \<^verbatim>\<open>New()\<close> has run.\<close>

lemma created_inv_New_calls_le:
  assumes i: "created_inv T d k c"
  shows "New_calls (shared c) \<le> Suc k"
proof -
  consider "word_of d c = 0" | "word_of d c = kBeingCreatedMarker"
    | "word_of d c \<noteq> 0" "word_of d c \<noteq> kBeingCreatedMarker"
    by blast
  then show ?thesis
  proof cases
    case 1
    then show ?thesis using created_inv_zero [OF i] by simp
  next
    case 2
    then obtain t where t: "t < length (calls c)" "creator (calls c ! t)"
      using created_inv_holder [OF i] by blast
    then show ?thesis using created_inv_call [OF i t(1)]
      by (cases "calls c ! t") simp_all
  next
    case 3
    then show ?thesis using created_inv_created [OF i] by simp
  qed
qed

lemma created_inv_Returned:
  assumes i: "created_inv T d k c" and v0: "New T k \<noteq> 0"
    and v1: "New T k \<noteq> kBeingCreatedMarker"
    and t: "t < length (calls c)" and r: "calls c ! t = Returned p"
  shows "p = New T k \<and> word_of d c = New T k \<and> New_calls (shared c) = Suc k"
proof -
  have "p = New T k \<and> word_of d c = New T k"
    using created_inv_call [OF i t] by (simp add: r)
  then show ?thesis using created_inv_created [OF i] v0 v1 by simp
qed

text \<open>One step moves the word forward, or not at all.\<close>

lemma word_step:
  assumes i: "created_inv T d k c"
  shows "word_of d (step T d t c) = word_of d c
    \<or> (word_of d c = 0 \<and> word_of d (step T d t c) = kBeingCreatedMarker)
    \<or> (word_of d c = kBeingCreatedMarker \<and> word_of d (step T d t c) = New T k)"
proof (cases "t < length (calls c)")
  case False
  then show ?thesis by (simp add: step_def)
next
  case True
  show ?thesis using True created_inv_call [OF i True]
    by (cases "calls c ! t") (auto simp: step_at atomic_defs word_of_def Let_def)
qed

lemma word_run_stable:
  assumes "mutex_inv d c" and "created_inv T d k c" and "New T k \<noteq> 0"
    and "New T k \<noteq> kBeingCreatedMarker"
  shows "(word_of d c \<noteq> 0 \<longrightarrow> word_of d (run T d sched c) \<noteq> 0) \<and>
    (word_of d c \<noteq> 0 \<and> word_of d c \<noteq> kBeingCreatedMarker \<longrightarrow>
       word_of d (run T d sched c) = word_of d c)"
  using assms
proof (induction sched arbitrary: c)
  case Nil
  then show ?case by simp
next
  case (Cons x xs)
  have m: "mutex_inv d (step T d x c)" using Cons.prems(1) by (rule mutex_inv_step)
  have i: "created_inv T d k (step T d x c)"
    using Cons.prems by (intro created_inv_step)
  note IH = Cons.IH [OF m i Cons.prems(3,4)]
  have k: "kBeingCreatedMarker \<noteq> (0::AtomicWord)" by (simp add: kBeingCreatedMarker_def)
  show ?case
    using IH word_step [OF Cons.prems(2), of x] Cons.prems(3,4) k
    by (simp only: run_Cons) metis
qed

lemma pc_untouched_step: "u \<noteq> t \<Longrightarrow> calls (step T d u c) ! t = calls c ! t"
  by (simp add: step_alt)

lemma pc_untouched_run: "t \<notin> set sched \<Longrightarrow> calls (run T d sched c) ! t = calls c ! t"
  by (induction sched arbitrary: c) (simp_all add: pc_untouched_step)

text \<open>A call in the wait loop stays there or returns the instance.\<close>

lemma waiter_step:
  assumes i: "created_inv T d k c" and t: "t < length (calls c)"
    and w: "calls c ! t = AtWait \<or> calls c ! t = Returned (New T k)"
  shows "calls (step T d x c) ! t = AtWait \<or> calls (step T d x c) ! t = Returned (New T k)"
proof (cases "x = t")
  case False
  then show ?thesis using w by (simp add: pc_untouched_step)
next
  case True
  have "word_of d c \<noteq> 0" if "calls c ! t = AtWait"
    using created_inv_call [OF i t] that by simp
  then show ?thesis
    using w t created_inv_word [OF i] unfolding True
    by (auto simp: step_at atomic_defs word_of_def Let_def split: if_splits)
qed

lemma waiter_run:
  assumes "mutex_inv d c" and "created_inv T d k c" and "New T k \<noteq> 0"
    and "New T k \<noteq> kBeingCreatedMarker" and "t < length (calls c)"
    and "calls c ! t = AtWait \<or> calls c ! t = Returned (New T k)"
  shows "calls (run T d sched c) ! t = AtWait \<or> calls (run T d sched c) ! t = Returned (New T k)"
  using assms
proof (induction sched arbitrary: c)
  case Nil
  then show ?case by simp
next
  case (Cons x xs)
  have m: "mutex_inv d (step T d x c)" using Cons.prems(1) by (rule mutex_inv_step)
  have i: "created_inv T d k (step T d x c)"
    using Cons.prems(1-4) by (intro created_inv_step)
  have w: "calls (step T d x c) ! t = AtWait \<or> calls (step T d x c) ! t = Returned (New T k)"
    using Cons.prems(2,5,6) by (rule waiter_step)
  show ?case
    using Cons.IH [OF m i Cons.prems(3,4) _ w] Cons.prems(5) by simp
qed

text \<open>The creator publishes the instance with its own two steps.\<close>

lemma publisher_progress:
  assumes "mutex_inv d c" and "created_inv T d k c" and "New T k \<noteq> 0"
    and "New T k \<noteq> kBeingCreatedMarker" and "u < length (calls c)"
    and "calls c ! u = AtStore v" and "1 \<le> count_list sched u"
  shows "word_of d (run T d sched c) = New T k"
  using assms
proof (induction sched arbitrary: c)
  case Nil
  then show ?case by simp
next
  case (Cons x xs)
  have m: "mutex_inv d (step T d x c)" using Cons.prems(1) by (rule mutex_inv_step)
  have i: "created_inv T d k (step T d x c)"
    using Cons.prems(1-4) by (intro created_inv_step)
  show ?case
  proof (cases "x = u")
    case True
    have "v = New T k" using created_inv_call [OF Cons.prems(2,5)] Cons.prems(6) by simp
    then have "word_of d (step T d x c) = New T k"
      using Cons.prems(5,6) True by (simp add: step_at atomic_defs word_of_def)
    then show ?thesis
      using word_run_stable [OF m i Cons.prems(3,4), of xs] Cons.prems(3,4) by simp
  next
    case False
    have "calls (step T d x c) ! u = AtStore v"
      using False Cons.prems(6) by (simp add: pc_untouched_step)
    moreover have "1 \<le> count_list xs u" using False Cons.prems(7) by simp
    ultimately show ?thesis
      using Cons.IH [OF m i Cons.prems(3,4)] Cons.prems(5) by simp
  qed
qed

lemma creator_progress:
  assumes "mutex_inv d c" and "created_inv T d k c" and "New T k \<noteq> 0"
    and "New T k \<noteq> kBeingCreatedMarker" and "u < length (calls c)"
    and "creator (calls c ! u)" and "2 \<le> count_list sched u"
  shows "word_of d (run T d sched c) = New T k"
  using assms
proof (induction sched arbitrary: c)
  case Nil
  then show ?case by simp
next
  case (Cons x xs)
  have m: "mutex_inv d (step T d x c)" using Cons.prems(1) by (rule mutex_inv_step)
  have i: "created_inv T d k (step T d x c)"
    using Cons.prems(1-4) by (intro created_inv_step)
  have len: "u < length (calls (step T d x c))" using Cons.prems(5) by simp
  show ?case
  proof (cases "x = u")
    case False
    have "creator (calls (step T d x c) ! u)"
      using False Cons.prems(6) by (simp add: pc_untouched_step)
    moreover have "2 \<le> count_list xs u" using False Cons.prems(7) by simp
    ultimately show ?thesis
      using Cons.IH [OF m i Cons.prems(3,4) len] by simp
  next
    case True
    have c1: "1 \<le> count_list xs u" using True Cons.prems(7) by simp
    show ?thesis
    proof (cases "calls c ! u")
      case AtNew
      then have "calls (step T d x c) ! u = AtStore (New T (New_calls (shared c)))"
        using Cons.prems(5) True by (simp add: step_at atomic_defs)
      then show ?thesis
        using publisher_progress [OF m i Cons.prems(3,4) len _ c1] by simp
    next
      case (AtStore v)
      show ?thesis
        using publisher_progress [OF Cons.prems(1-5) AtStore, of "x # xs"] Cons.prems(7)
        by simp
    qed (use Cons.prems(6) in simp_all)
  qed
qed

text \<open>Calls that arrive when the instance exists.\<close>

lemma fast_path_gen:
  assumes w0: "word_of d c \<noteq> 0" and w1: "word_of d c \<noteq> kBeingCreatedMarker"
    and pcs: "\<And>t. t < length (calls c) \<Longrightarrow>
       calls c ! t = AtLoad \<or> calls c ! t = Returned (word_of d c)"
  shows "shared (run T d sched c) = shared c \<and>
    (\<forall>t<length (calls c). calls (run T d sched c) ! t =
        (if t \<in> set sched then Returned (word_of d c) else calls c ! t))"
proof (induction sched rule: rev_induct)
  case Nil
  show ?case by simp
next
  case (snoc x xs)
  define c' where "c' = run T d xs c"
  have len: "length (calls c') = length (calls c)" by (simp add: c'_def)
  have sh: "shared c' = shared c"
    and cs: "\<And>t. t < length (calls c) \<Longrightarrow>
       calls c' ! t = (if t \<in> set xs then Returned (word_of d c) else calls c ! t)"
    using snoc by (simp_all add: c'_def)
  show ?case
  proof (cases "x < length (calls c)")
    case False
    then have "step T d x c' = c'" by (simp add: step_def len)
    then show ?thesis using sh cs False by (auto simp: run_snoc c'_def [symmetric])
  next
    case True
    have "calls c' ! x = AtLoad \<or> calls c' ! x = Returned (word_of d c)"
      using cs [OF True] pcs [OF True] by auto
    then have st: "shared (step T d x c') = shared c"
      and cl: "calls (step T d x c') = (calls c')[x := Returned (word_of d c)]"
      using True len sh w0 w1
      by (auto simp: step_at atomic_defs Let_def word_of_def)
    have "calls (step T d x c') ! t =
        (if t \<in> set (xs @ [x]) then Returned (word_of d c) else calls c ! t)"
      if "t < length (calls c)" for t
      using that True len cs [OF that] by (simp add: cl nth_list_update)
    then show ?thesis using st
      by (simp add: run_snoc c'_def [symmetric])
  qed
qed

text \<open>One call after the other: the first creates, the others find the instance.\<close>

lemma sequential_run_completes:
  assumes f: "instance_word s d = 0" and N: "0 < N"
    and v0: "New T (New_calls s) \<noteq> 0" and v1: "New T (New_calls s) \<noteq> kBeingCreatedMarker"
  shows "calls (run T d (0 # 0 # 0 # 0 # [1..<N]) (start s N))
     = replicate N (Returned (New T (New_calls s)))"
proof -
  define a where "a = New T (New_calls s)"
  define c4 where "c4 = run T d [0, 0, 0, 0] (start s N)"
  have w: "word_of d c4 = a" and cl: "calls c4 = (replicate N AtLoad)[0 := Returned a]"
    using f N by (simp_all add: c4_def a_def step_at start_def atomic_defs word_of_def Let_def)
  have len: "length (calls c4) = N" by (simp add: cl)
  have pcs: "calls c4 ! t = AtLoad \<or> calls c4 ! t = Returned (word_of d c4)"
    if "t < length (calls c4)" for t
    using that by (simp add: w cl nth_list_update)
  have r: "\<forall>t<length (calls c4). calls (run T d [1..<N] c4) ! t =
        (if t \<in> set [1..<N] then Returned (word_of d c4) else calls c4 ! t)"
    using fast_path_gen [of d c4 T "[1..<N]"] pcs v0 v1 by (simp add: w a_def)
  have "calls (run T d [1..<N] c4) ! t = Returned a" if "t < N" for t
    using r that len by (cases "t = 0") (auto simp: w cl)
  then have "calls (run T d [1..<N] c4) = replicate N (Returned a)"
    by (intro nth_equalityI) (simp_all add: len)
  then show ?thesis by (simp add: c4_def a_def)
qed

section \<open>The claims\<close>

subsection \<open>One creation\<close>

text \<open>
  C1, as amended. Any number \<open>N\<close> of calls of \<^verbatim>\<open>get()\<close> race on a fresh instance,
  under any schedule. Provided the invocation of \<^verbatim>\<open>Traits::New()\<close> that the first
  creator makes returns the address of an instance (neither null nor the marker),
  \<^verbatim>\<open>New()\<close> is invoked at most once at every moment of the run and exactly once as
  soon as one call has returned, and every call that has returned has returned that same
  address. For \<open>N \<ge> 1\<close> there are runs in which all \<open>N\<close> calls return: the one
  that lets the calls run one after the other is such a run.
\<close>

theorem C1_one_creation_for_all_callers:
  assumes "instance_word s d = 0" and "New T (New_calls s) \<noteq> 0"
    and "New T (New_calls s) \<noteq> kBeingCreatedMarker"
  shows "New_calls (shared (run T d sched (start s N))) \<le> Suc (New_calls s) \<and>
    (\<forall>t<N. \<forall>p. calls (run T d sched (start s N)) ! t = Returned p \<longrightarrow>
       p = New T (New_calls s) \<and>
       New_calls (shared (run T d sched (start s N))) = Suc (New_calls s)) \<and>
    (0 < N \<longrightarrow> calls (run T d (0 # 0 # 0 # 0 # [1..<N]) (start s N))
       = replicate N (Returned (New T (New_calls s))))"
proof -
  note i = reachable_inv(2) [OF assms, of sched N]
  have len: "length (calls (run T d sched (start s N))) = N" by (simp add: start_def)
  have "New_calls (shared (run T d sched (start s N))) \<le> Suc (New_calls s)"
    using i by (rule created_inv_New_calls_le)
  moreover have "p = New T (New_calls s) \<and>
       New_calls (shared (run T d sched (start s N))) = Suc (New_calls s)"
    if "t < N" "calls (run T d sched (start s N)) ! t = Returned p" for t p
    using created_inv_Returned [OF i assms(2,3) _ that(2)] that(1) len by simp
  moreover have "calls (run T d (0 # 0 # 0 # 0 # [1..<N]) (start s N))
       = replicate N (Returned (New T (New_calls s)))" if "0 < N"
    using sequential_run_completes [OF assms(1) that assms(2,3)] .
  ultimately show ?thesis by blast
qed

theorem C1_one_creation_for_all_callers_witness:
  "instance_word (fresh :: nat world) 0 = 0 \<and>
   New RegisteringTraits (New_calls (fresh :: nat world)) \<noteq> 0 \<and>
   New RegisteringTraits (New_calls (fresh :: nat world)) \<noteq> kBeingCreatedMarker \<and>
   calls (run RegisteringTraits (0::nat) [0, 1, 2, 0, 1, 2, 0, 0, 1, 2] (start fresh 3)) ! 1
     = Returned 4096 \<and>
   New RegisteringTraits (New_calls (fresh :: nat world)) = 4096 \<and>
   New_calls (shared (run RegisteringTraits (0::nat) [0, 1, 2, 0, 1, 2, 0, 0, 1, 2] (start fresh 3)))
     = Suc (New_calls (fresh :: nat world)) \<and>
   calls (run RegisteringTraits (0::nat) (0 # 0 # 0 # 0 # [1..<3]) (start fresh 3))
     = replicate 3 (Returned (New RegisteringTraits (New_calls (fresh :: nat world))))"
proof -
  have h: "instance_word (fresh :: nat world) 0 = 0"
    "New RegisteringTraits (New_calls (fresh :: nat world)) \<noteq> 0"
    "New RegisteringTraits (New_calls (fresh :: nat world)) \<noteq> kBeingCreatedMarker"
    by (simp_all add: fresh_def RegisteringTraits_def kBeingCreatedMarker_def)
  have r: "calls (run RegisteringTraits (0::nat) [0, 1, 2, 0, 1, 2, 0, 0, 1, 2] (start fresh 3)) ! 1
     = Returned 4096"
    by code_simp
  have t: "(1::nat) < 3" "(0::nat) < 3" by simp_all
  have v: "New RegisteringTraits (New_calls (fresh :: nat world)) = 4096"
    by (simp add: fresh_def RegisteringTraits_def)
  note th = C1_one_creation_for_all_callers [where s = "fresh :: nat world" and d = 0
        and T = RegisteringTraits and sched = "[0, 1, 2, 0, 1, 2, 0, 0, 1, 2]" and N = 3, OF h]
  note x = th [THEN conjunct2, THEN conjunct1, rule_format, OF t(1) r, THEN conjunct2]
  note y = th [THEN conjunct2, THEN conjunct2, rule_format, OF t(2)]
  show ?thesis
    by (intro conjI) (rule h r v x y)+
qed

text \<open>
  C1 as stated fails for a policy whose \<^verbatim>\<open>New()\<close> returns null. Two calls race on
  a fresh instance and both load 0; the first wins the compare-and-swap, gets null from
  \<^verbatim>\<open>New()\<close> and stores it, which is 0; the compare-and-swap of the second then
  succeeds as well, and \<^verbatim>\<open>New()\<close> is invoked a second time.
\<close>

theorem C1_second_creation_counterexample:
  "calls (run NullTraits (0::nat) [0, 1, 0, 0, 0, 1, 1, 1] (start fresh 2))
     = [Returned 0, Returned 0] \<and>
   New_calls (shared (run NullTraits (0::nat) [0, 1, 0, 0, 0, 1, 1, 1] (start fresh 2))) = 2"
  by code_simp

text \<open>
  C2, as amended. Provided \<^verbatim>\<open>New()\<close> returns the address of an instance, the state
  word of a configuration reached from a fresh instance is 0, the marker or that address;
  a step of a call leaves it as it is, or moves it from 0 to the marker, or from the marker
  to the address; once it is not 0 it is never 0 again, and once it holds the address it
  keeps it, whatever runs afterwards; \<^verbatim>\<open>OnExit\<close> does not write it.
\<close>

theorem C2_word_only_moves_forward:
  assumes "instance_word s d = 0" and "New T (New_calls s) \<noteq> 0"
    and "New T (New_calls s) \<noteq> kBeingCreatedMarker"
    and c: "c = run T d pre (start s N)"
  shows "(word_of d c = 0 \<or> word_of d c = kBeingCreatedMarker \<or> word_of d c = New T (New_calls s)) \<and>
    (word_of d (step T d t c) = word_of d c
      \<or> (word_of d c = 0 \<and> word_of d (step T d t c) = kBeingCreatedMarker)
      \<or> (word_of d c = kBeingCreatedMarker \<and> word_of d (step T d t c) = New T (New_calls s))) \<and>
    (word_of d c \<noteq> 0 \<longrightarrow> word_of d (run T d post c) \<noteq> 0) \<and>
    (word_of d c \<noteq> 0 \<and> word_of d c \<noteq> kBeingCreatedMarker \<longrightarrow>
       word_of d (run T d post c) = word_of d c) \<and>
    OnExit T d (shared c) = shared c"
proof -
  have m: "mutex_inv d c" and i: "created_inv T d (New_calls s) c"
    unfolding c using assms(1-3) by (rule reachable_inv)+
  show ?thesis
    using created_inv_word [OF i] word_step [OF i, of t]
      word_run_stable [OF m i assms(2,3), of post]
    by (simp add: OnExit_def)
qed

theorem C2_word_only_moves_forward_witness:
  "instance_word (fresh :: nat world) 0 = 0 \<and>
   New RegisteringTraits (New_calls (fresh :: nat world)) \<noteq> 0 \<and>
   New RegisteringTraits (New_calls (fresh :: nat world)) \<noteq> kBeingCreatedMarker \<and>
   word_of (0::nat) (run RegisteringTraits 0 [0, 0, 1, 0, 0] (start fresh 2)) = 4096 \<and>
   word_of (0::nat) (run RegisteringTraits 0 [1, 1, 0, 1]
     (run RegisteringTraits 0 [0, 0, 1, 0, 0] (start fresh 2)))
     = word_of (0::nat) (run RegisteringTraits 0 [0, 0, 1, 0, 0] (start fresh 2))"
proof -
  have h: "instance_word (fresh :: nat world) 0 = 0"
    "New RegisteringTraits (New_calls (fresh :: nat world)) \<noteq> 0"
    "New RegisteringTraits (New_calls (fresh :: nat world)) \<noteq> kBeingCreatedMarker"
    by (simp_all add: fresh_def RegisteringTraits_def kBeingCreatedMarker_def)
  have r: "word_of (0::nat) (run RegisteringTraits 0 [0, 0, 1, 0, 0] (start fresh 2)) = 4096"
    by code_simp
  have n: "(4096 :: AtomicWord) \<noteq> 0" "(4096 :: AtomicWord) \<noteq> kBeingCreatedMarker"
    by (simp_all add: kBeingCreatedMarker_def)
  show ?thesis
    using h r n C2_word_only_moves_forward [where s = "fresh :: nat world" and d = 0
        and T = RegisteringTraits and pre = "[0, 0, 1, 0, 0]" and N = 2 and t = 0
        and post = "[1, 1, 0, 1]", OF h refl]
    by metis
qed

text \<open>
  C2 as stated fails for a policy whose \<^verbatim>\<open>New()\<close> returns null: the release-store
  of \<^verbatim>\<open>get()\<close> writes what \<^verbatim>\<open>New()\<close> returned, and the word goes from 0 to the
  marker and back to 0.
\<close>

theorem C2_word_returns_to_zero_counterexample:
  "word_of (0::nat) (start fresh 1) = 0 \<and>
   word_of (0::nat) (run NullTraits 0 [0, 0] (start fresh 1)) = kBeingCreatedMarker \<and>
   word_of (0::nat) (run NullTraits 0 [0, 0, 0, 0] (start fresh 1)) = 0"
  by code_simp

subsection \<open>The fast path\<close>

text \<open>
  C3. For every state in which the state word holds the address of an instance (a value
  other than 0 and other than the marker), a call of \<^verbatim>\<open>get()\<close> returns that address,
  does not invoke \<^verbatim>\<open>Traits::New()\<close> and does not modify the state word; repeated
  calls are idempotent. Here for any number \<open>N\<close> of calls and any schedule: the process
  state after the run is the state before it, and every call that has taken a step has
  returned the address.
\<close>

theorem C3_created_fast_path:
  assumes "instance_word s d \<noteq> 0" and "instance_word s d \<noteq> kBeingCreatedMarker"
  shows "shared (run T d sched (start s N)) = s \<and>
    (\<forall>t<N. calls (run T d sched (start s N)) ! t =
        (if t \<in> set sched then Returned (instance_word s d) else AtLoad))"
  using fast_path_gen [of d "start s N" T sched] assms
  by (simp add: start_def word_of_def)

theorem C3_created_fast_path_witness:
  "instance_word (Release_Store (0::nat) 4096 fresh) 0 \<noteq> 0 \<and>
   instance_word (Release_Store (0::nat) 4096 fresh) 0 \<noteq> kBeingCreatedMarker \<and>
   shared (run RegisteringTraits 0 [2, 0, 2] (start (Release_Store (0::nat) 4096 fresh) 3))
     = Release_Store 0 4096 fresh \<and>
   calls (run RegisteringTraits 0 [2, 0, 2] (start (Release_Store (0::nat) 4096 fresh) 3)) ! 0
     = Returned 4096 \<and>
   calls (run RegisteringTraits 0 [2, 0, 2] (start (Release_Store (0::nat) 4096 fresh) 3)) ! 1
     = AtLoad \<and>
   calls (run RegisteringTraits 0 [2, 0, 2] (start (Release_Store (0::nat) 4096 fresh) 3)) ! 2
     = Returned 4096"
proof -
  have h1: "instance_word (Release_Store (0::nat) 4096 fresh) 0 \<noteq> 0"
    by (simp add: Release_Store_def fresh_def)
  have h2: "instance_word (Release_Store (0::nat) 4096 fresh) 0 \<noteq> kBeingCreatedMarker"
    by (simp add: Release_Store_def fresh_def kBeingCreatedMarker_def)
  have v: "instance_word (Release_Store (0::nat) 4096 fresh) 0 = 4096"
    by (simp add: Release_Store_def fresh_def)
  show ?thesis
    using h1 h2 C3_created_fast_path [OF h1 h2, of RegisteringTraits "[2, 0, 2]" 3]
    by (simp add: v)
qed

subsection \<open>The creator\<close>

text \<open>
  C4. When the compare-and-swap of a call finds 0 (the call is at its compare-and-swap and
  the word is 0), the call puts the marker, invokes \<^verbatim>\<open>Traits::New()\<close> exactly once,
  stores the returned pointer into the state word and returns that pointer. The
  configuration is any one reached from a fresh instance, and the other calls may take
  any steps \<open>a\<close> and \<open>b\<close> between the three steps of the creator: the count of
  invocations grows by one over the whole run.
\<close>

theorem C4_creator_creates_and_publishes:
  assumes fresh0: "instance_word s d = 0"
    and c: "c = run T d pre (start s N)"
    and t: "t < N" and pc: "calls c ! t = AtCompareAndSwap" and w: "word_of d c = 0"
    and a: "t \<notin> set a" and b: "t \<notin> set b"
  shows "calls (step T d t c) ! t = AtNew \<and> word_of d (step T d t c) = kBeingCreatedMarker
    \<and> New_calls (shared (run T d ([t] @ a @ [t] @ b @ [t]) c)) = Suc (New_calls (shared c))
    \<and> word_of d (run T d ([t] @ a @ [t] @ b @ [t]) c) = New T (New_calls (shared c))
    \<and> calls (run T d ([t] @ a @ [t] @ b @ [t]) c) ! t = Returned (New T (New_calls (shared c)))"
proof -
  have len: "length (calls c) = N" by (simp add: c start_def)
  have m0: "mutex_inv d c" unfolding c by (rule mutex_inv_run) (rule mutex_inv_start [OF fresh0])
  define c1 where "c1 = step T d t c"
  define c2 where "c2 = run T d a c1"
  define c3 where "c3 = step T d t c2"
  define c4 where "c4 = run T d b c3"
  define c5 where "c5 = step T d t c4"
  have fin: "run T d ([t] @ a @ [t] @ b @ [t]) c = c5"
    by (simp add: run_append c1_def c2_def c3_def c4_def c5_def)
  have c1: "calls c1 ! t = AtNew" "word_of d c1 = kBeingCreatedMarker"
     "New_calls (shared c1) = New_calls (shared c)" "length (calls c1) = N"
    using t pc w len by (simp_all add: c1_def step_at atomic_defs word_of_def Let_def)
  have m1: "mutex_inv d c1" unfolding c1_def by (rule mutex_inv_step [OF m0])
  have c2: "shared c2 = shared c1 \<and> calls c2 ! t = calls c1 ! t"
    unfolding c2_def using m1 c1 t a by (intro creator_undisturbed_run) simp_all
  have m2: "mutex_inv d c2" unfolding c2_def by (rule mutex_inv_run [OF m1])
  have l2: "length (calls c2) = N" by (simp add: c2_def c1)
  have c3: "calls c3 ! t = AtStore (New T (New_calls (shared c)))"
     "New_calls (shared c3) = Suc (New_calls (shared c))" "length (calls c3) = N"
    using t c2 c1 l2 by (simp_all add: c3_def step_at atomic_defs word_of_def Let_def)
  have m3: "mutex_inv d c3" unfolding c3_def by (rule mutex_inv_step [OF m2])
  have c4: "shared c4 = shared c3 \<and> calls c4 ! t = calls c3 ! t"
    unfolding c4_def using m3 c3 t b by (intro creator_undisturbed_run) simp_all
  have l4: "length (calls c4) = N" by (simp add: c4_def c3)
  have c5: "calls c5 ! t = Returned (New T (New_calls (shared c)))"
     "New_calls (shared c5) = Suc (New_calls (shared c))"
     "word_of d c5 = New T (New_calls (shared c))"
    using t c4 c3 l4 by (simp_all add: c5_def step_at atomic_defs word_of_def Let_def)
  show ?thesis unfolding fin using c1 c5 by (simp add: c1_def)
qed

theorem C4_creator_creates_and_publishes_witness:
  "instance_word (fresh :: nat world) 0 = 0 \<and>
   calls (run RegisteringTraits (0::nat) [1, 0] (start fresh 3)) ! 0 = AtCompareAndSwap \<and>
   word_of 0 (run RegisteringTraits (0::nat) [1, 0] (start fresh 3)) = 0 \<and>
   New_calls (shared (run RegisteringTraits 0 ([0] @ [1, 2] @ [0] @ [1, 2] @ [0])
     (run RegisteringTraits (0::nat) [1, 0] (start fresh 3)))) = Suc 0 \<and>
   word_of 0 (run RegisteringTraits 0 ([0] @ [1, 2] @ [0] @ [1, 2] @ [0])
     (run RegisteringTraits (0::nat) [1, 0] (start fresh 3))) = 4096 \<and>
   calls (run RegisteringTraits 0 ([0] @ [1, 2] @ [0] @ [1, 2] @ [0])
     (run RegisteringTraits (0::nat) [1, 0] (start fresh 3))) ! 0 = Returned 4096"
proof -
  have h0: "instance_word (fresh :: nat world) 0 = 0" by (simp add: fresh_def)
  have h1: "calls (run RegisteringTraits (0::nat) [1, 0] (start fresh 3)) ! 0 = AtCompareAndSwap"
    by code_simp
  have h2: "word_of 0 (run RegisteringTraits (0::nat) [1, 0] (start fresh 3)) = 0"
    by code_simp
  have n: "New_calls (shared (run RegisteringTraits (0::nat) [1, 0] (start fresh 3))) = 0"
    by code_simp
  have v: "New RegisteringTraits 0 = 4096" by (simp add: RegisteringTraits_def)
  have t: "(0::nat) < 3" and a: "(0::nat) \<notin> set [1, 2]" by simp_all
  note th = C4_creator_creates_and_publishes [OF h0 refl t h1 h2 a a, unfolded n v]
  show ?thesis
    using h0 h1 h2 th by blast
qed

text \<open>
  C9. If \<^verbatim>\<open>Traits::New()\<close> returns a null pointer on the creator path, \<^verbatim>\<open>get()\<close>
  release-stores 0 into the state word and returns null; a later call attempts the creation
  again and invokes \<^verbatim>\<open>New()\<close> a second time. Step by step, for a call \<open>t\<close> that
  starts on the word 0 and a call \<open>u\<close> that starts later: the compare-and-swap of
  \<open>t\<close> puts the marker, and while the marker is there the compare-and-swap of \<open>u\<close>
  would fail and send \<open>u\<close> to the wait loop; \<open>t\<close> gets null from \<^verbatim>\<open>New()\<close>, holds
  it as \<^verbatim>\<open>newval\<close> with the marker still in the word, and its release-store puts 0
  where the marker was and returns null; \<open>u\<close> then loads 0, its compare-and-swap
  succeeds and puts the marker again, it invokes \<^verbatim>\<open>New()\<close>, the second invocation,
  and stores and returns what that invocation gave.
\<close>

theorem C9_null_instance_reopens_creation:
  assumes "t < length (calls c)" and "calls c ! t = AtLoad" and "word_of d c = 0"
    and "New T (New_calls (shared c)) = 0"
    and "u < length (calls c)" and "u \<noteq> t" and "calls c ! u = AtLoad"
  shows "calls (run T d [t] c) ! t = AtCompareAndSwap
     \<and> calls (run T d [t, t] c) ! t = AtNew
     \<and> word_of d (run T d [t, t] c) = kBeingCreatedMarker
     \<and> calls (run T d [t, t, u, u] c) ! u = AtWait
     \<and> calls (run T d [t, t, t] c) ! t = AtStore 0
     \<and> word_of d (run T d [t, t, t] c) = kBeingCreatedMarker
     \<and> New_calls (shared (run T d [t, t, t] c)) = Suc (New_calls (shared c))
     \<and> word_of d (run T d [t, t, t, t] c) = 0
     \<and> calls (run T d [t, t, t, t] c) ! t = Returned 0
     \<and> New_calls (shared (run T d [t, t, t, t] c)) = Suc (New_calls (shared c))
     \<and> calls (run T d [t, t, t, t, u] c) ! u = AtCompareAndSwap
     \<and> calls (run T d [t, t, t, t, u, u] c) ! u = AtNew
     \<and> word_of d (run T d [t, t, t, t, u, u] c) = kBeingCreatedMarker
     \<and> calls (run T d [t, t, t, t, u, u, u] c) ! u = AtStore (New T (Suc (New_calls (shared c))))
     \<and> New_calls (shared (run T d [t, t, t, t, u, u, u, u] c)) = Suc (Suc (New_calls (shared c)))
     \<and> calls (run T d [t, t, t, t, u, u, u, u] c) ! u
         = Returned (New T (Suc (New_calls (shared c))))
     \<and> word_of d (run T d [t, t, t, t, u, u, u, u] c) = New T (Suc (New_calls (shared c)))"
  using assms by (simp add: step_at atomic_defs word_of_def Let_def)

theorem C9_null_instance_reopens_creation_witness:
  "word_of (0::nat) (start fresh 2) = 0 \<and>
   New NullTraits (New_calls (shared (start (fresh :: nat world) 2))) = 0 \<and>
   word_of (0::nat) (run NullTraits 0 [0, 0] (start fresh 2)) = kBeingCreatedMarker \<and>
   calls (run NullTraits (0::nat) [0, 0, 1, 1] (start fresh 2)) ! 1 = AtWait \<and>
   calls (run NullTraits (0::nat) [0, 0, 0] (start fresh 2)) ! 0 = AtStore 0 \<and>
   word_of (0::nat) (run NullTraits 0 [0, 0, 0, 0] (start fresh 2)) = 0 \<and>
   calls (run NullTraits (0::nat) [0, 0, 0, 0] (start fresh 2)) ! 0 = Returned 0 \<and>
   calls (run NullTraits (0::nat) [0, 0, 0, 0, 1, 1] (start fresh 2)) ! 1 = AtNew \<and>
   word_of (0::nat) (run NullTraits 0 [0, 0, 0, 0, 1, 1] (start fresh 2)) = kBeingCreatedMarker \<and>
   New_calls (shared (run NullTraits (0::nat) [0, 0, 0, 0, 1, 1, 1, 1] (start fresh 2)))
     = Suc (Suc (New_calls (shared (start (fresh :: nat world) 2))))"
proof -
  have h: "(0::nat) < length (calls (start (fresh :: nat world) 2))"
    "calls (start (fresh :: nat world) 2) ! 0 = AtLoad"
    "word_of (0::nat) (start fresh 2) = 0"
    "New NullTraits (New_calls (shared (start (fresh :: nat world) 2))) = 0"
    "(1::nat) < length (calls (start (fresh :: nat world) 2))"
    "(1::nat) \<noteq> 0"
    "calls (start (fresh :: nat world) 2) ! 1 = AtLoad"
    by (simp_all add: start_def fresh_def word_of_def NullTraits_def numeral_2_eq_2)
  note th = C9_null_instance_reopens_creation [OF h]
  show ?thesis
    using h(3,4) th by blast
qed

subsection \<open>The wait loop\<close>

text \<open>
  C6, as amended. Provided \<^verbatim>\<open>New()\<close> returns the address of an instance, in every
  configuration reached from a fresh instance:
  \<^item> a call whose acquire-load finds the marker goes on to its compare-and-swap, which
    fails whatever the other calls do in between, and the call is in the wait loop;
  \<^item> a call whose compare-and-swap fails is in the wait loop;
  \<^item> a turn of the loop that finds the marker changes nothing, and some call is then
    the creator;
  \<^item> a turn of the loop that finds another value finds the address of the instance and
    returns it;
  \<^item> termination: if the creator takes its steps (two at most: \<^verbatim>\<open>New()\<close> and the
    release-store), in any interleaving with the others, the next turn of the waiting call
    returns the instance.
\<close>

theorem C6_wait_loop_ends_with_the_instance:
  assumes f: "instance_word s d = 0" and v0: "New T (New_calls s) \<noteq> 0"
    and v1: "New T (New_calls s) \<noteq> kBeingCreatedMarker"
    and c: "c = run T d pre (start s N)" and t: "t < N"
  shows "(calls c ! t = AtLoad \<and> word_of d c = kBeingCreatedMarker \<and> t \<notin> set others \<longrightarrow>
       calls (run T d ([t] @ others @ [t]) c) ! t = AtWait) \<and>
    (calls c ! t = AtCompareAndSwap \<and> word_of d c \<noteq> 0 \<longrightarrow>
       calls (step T d t c) ! t = AtWait) \<and>
    (calls c ! t = AtWait \<and> word_of d c = kBeingCreatedMarker \<longrightarrow>
       step T d t c = c \<and> (\<exists>u<N. creator (calls c ! u))) \<and>
    (calls c ! t = AtWait \<and> word_of d c \<noteq> kBeingCreatedMarker \<longrightarrow>
       word_of d c = New T (New_calls s) \<and>
       calls (step T d t c) ! t = Returned (New T (New_calls s))) \<and>
    (calls c ! t = AtWait \<and> u < N \<and> creator (calls c ! u) \<and> 2 \<le> count_list sched u \<longrightarrow>
       calls (run T d (sched @ [t]) c) ! t = Returned (New T (New_calls s)))"
proof -
  define a where "a = New T (New_calls s)"
  have len: "length (calls c) = N" by (simp add: c start_def)
  have m: "mutex_inv d c" and i: "created_inv T d (New_calls s) c"
    unfolding c using f v0 v1 by (rule reachable_inv)+
  have k0: "kBeingCreatedMarker \<noteq> (0::AtomicWord)" by (simp add: kBeingCreatedMarker_def)
  have p1: "calls (run T d ([t] @ others @ [t]) c) ! t = AtWait"
    if pc: "calls c ! t = AtLoad" and w: "word_of d c = kBeingCreatedMarker"
      and o: "t \<notin> set others"
  proof -
    define c1 where "c1 = step T d t c"
    define c2 where "c2 = run T d others c1"
    have c1: "calls c1 ! t = AtCompareAndSwap" "word_of d c1 \<noteq> 0"
      using t len pc w k0 by (simp_all add: c1_def step_at atomic_defs word_of_def)
    have m1: "mutex_inv d c1" and i1: "created_inv T d (New_calls s) c1"
      unfolding c1_def using m i v0 v1 by (simp_all add: mutex_inv_step created_inv_step)
    have c2: "calls c2 ! t = AtCompareAndSwap" "word_of d c2 \<noteq> 0"
      using c1 o word_run_stable [OF m1 i1 v0 v1, of others]
      by (simp_all add: c2_def pc_untouched_run)
    have "calls (step T d t c2) ! t = AtWait"
      using c2 t len by (simp add: step_at atomic_defs word_of_def c2_def c1_def)
    then show ?thesis by (simp add: run_append c2_def c1_def)
  qed
  have p2: "calls (step T d t c) ! t = AtWait"
    if "calls c ! t = AtCompareAndSwap" "word_of d c \<noteq> 0"
    using that t len by (simp add: step_at atomic_defs word_of_def)
  have p3: "step T d t c = c \<and> (\<exists>u<N. creator (calls c ! u))"
    if pc: "calls c ! t = AtWait" and w: "word_of d c = kBeingCreatedMarker"
  proof -
    have "(calls c)[t := AtWait] = calls c" using pc by (metis list_update_id)
    then have "step T d t c = c"
      using t len pc w by (simp add: step_at atomic_defs word_of_def)
    then show ?thesis using created_inv_holder [OF i w] len by simp
  qed
  have p4: "word_of d c = a \<and> calls (step T d t c) ! t = Returned a"
    if pc: "calls c ! t = AtWait" and w: "word_of d c \<noteq> kBeingCreatedMarker"
  proof -
    have "word_of d c \<noteq> 0" using created_inv_call [OF i, of t] t len pc by simp
    then have "word_of d c = a" using created_inv_created [OF i] w by (simp add: a_def)
    then show ?thesis using t len pc w by (simp add: step_at atomic_defs word_of_def)
  qed
  have p5: "calls (run T d (sched @ [t]) c) ! t = Returned a"
    if pc: "calls c ! t = AtWait" and u: "u < N" "creator (calls c ! u)"
      and n: "2 \<le> count_list sched u"
  proof -
    define c' where "c' = run T d sched c"
    have len': "length (calls c') = N" by (simp add: c'_def len)
    have w': "word_of d c' = a"
      unfolding c'_def a_def using m i v0 v1 _ u(2) n by (rule creator_progress) (simp add: len u)
    have "calls c' ! t = AtWait \<or> calls c' ! t = Returned a"
      unfolding c'_def a_def using m i v0 v1 by (rule waiter_run) (simp_all add: len t pc)
    then have "calls (step T d t c') ! t = Returned a"
      using w' v1 t len' by (auto simp: step_at atomic_defs word_of_def a_def)
    then show ?thesis by (simp add: run_snoc c'_def)
  qed
  show ?thesis using p1 p2 p3 p4 p5 unfolding a_def by blast
qed

theorem C6_wait_loop_ends_with_the_instance_witness:
  "instance_word (fresh :: nat world) 0 = 0 \<and>
   New RegisteringTraits (New_calls (fresh :: nat world)) \<noteq> 0 \<and>
   New RegisteringTraits (New_calls (fresh :: nat world)) \<noteq> kBeingCreatedMarker \<and>
   calls (run RegisteringTraits (0::nat) [0, 0, 1, 1] (start fresh 2)) ! 1 = AtWait \<and>
   creator (calls (run RegisteringTraits (0::nat) [0, 0, 1, 1] (start fresh 2)) ! 0) \<and>
   2 \<le> count_list [1, 0, 1, 0] (0::nat) \<and>
   calls (run RegisteringTraits (0::nat) ([1, 0, 1, 0] @ [1])
     (run RegisteringTraits (0::nat) [0, 0, 1, 1] (start fresh 2))) ! 1
     = Returned (New RegisteringTraits (New_calls (fresh :: nat world)))"
proof -
  have h: "instance_word (fresh :: nat world) 0 = 0"
    "New RegisteringTraits (New_calls (fresh :: nat world)) \<noteq> 0"
    "New RegisteringTraits (New_calls (fresh :: nat world)) \<noteq> kBeingCreatedMarker"
    by (simp_all add: fresh_def RegisteringTraits_def kBeingCreatedMarker_def)
  have r: "calls (run RegisteringTraits (0::nat) [0, 0, 1, 1] (start fresh 2)) ! 1 = AtWait"
    "creator (calls (run RegisteringTraits (0::nat) [0, 0, 1, 1] (start fresh 2)) ! 0)"
    by code_simp+
  have n: "2 \<le> count_list [1, 0, 1, 0] (0::nat)" "(1::nat) < 2" "(0::nat) < 2" by simp_all
  show ?thesis
    using h r n
      C6_wait_loop_ends_with_the_instance [where s = "fresh :: nat world" and d = 0
        and T = RegisteringTraits and pre = "[0, 0, 1, 1]" and N = 2 and t = 1
        and others = "[]" and u = 0 and sched = "[1, 0, 1, 0]", OF h refl n(2)]
    by blast
qed

text \<open>
  C6 as stated fails for a policy whose \<^verbatim>\<open>New()\<close> returns null. The second call
  loads the marker; the creator then stores the null it got, which is 0; the
  compare-and-swap of the second call finds 0 and succeeds, so that the call which observed
  the marker never enters the wait loop: it invokes \<^verbatim>\<open>New()\<close> itself.
\<close>

theorem C6_observer_becomes_creator_counterexample:
  "word_of (0::nat) (run NullTraits 0 [0, 0] (start fresh 2)) = kBeingCreatedMarker \<and>
   calls (run NullTraits (0::nat) [0, 0, 1] (start fresh 2)) ! 1 = AtCompareAndSwap \<and>
   word_of (0::nat) (run NullTraits 0 [0, 0, 1, 0, 0] (start fresh 2)) = 0 \<and>
   calls (run NullTraits (0::nat) [0, 0, 1, 0, 0, 1] (start fresh 2)) ! 1 = AtNew \<and>
   calls (run NullTraits (0::nat) [0, 0, 1, 0, 0, 1, 1, 1] (start fresh 2))
     = [Returned 0, Returned 0] \<and>
   New_calls (shared (run NullTraits (0::nat) [0, 0, 1, 0, 0, 1, 1, 1] (start fresh 2))) = 2"
  by code_simp


subsection \<open>Registration at exit and destruction\<close>

text \<open>
  C5. With a policy whose \<open>kRegisterAtExit\<close> is set, exactly one destruction callback
  is to be enqueued with the at-exit manager per instance, by the creator, after the
  release-store; the header says of the flag "Set to true to automatically register
  deletion of the object on process exit". The code does not do it: the two lines of
  \<^verbatim>\<open>get()\<close> that register \<^verbatim>\<open>OnExit\<close> are commented out. Three calls race on a
  fresh instance of a policy with the flag set; all three return the instance, the word
  holds it, and the queue of the at-exit manager is empty, where one registration leaves
  one callback.
\<close>

theorem C5_flag_set_nothing_enqueued:
  "kRegisterAtExit RegisteringTraits \<and>
   calls (run RegisteringTraits (0::nat) [0, 1, 2, 0, 1, 2, 0, 0, 1, 2] (start fresh 3))
     = [Returned 4096, Returned 4096, Returned 4096] \<and>
   word_of (0::nat) (run RegisteringTraits (0::nat) [0, 1, 2, 0, 1, 2, 0, 0, 1, 2] (start fresh 3))
     = 4096 \<and>
   AtExit_callbacks (shared
     (run RegisteringTraits (0::nat) [0, 1, 2, 0, 1, 2, 0, 0, 1, 2] (start fresh 3))) = [] \<and>
   AtExit_callbacks (AtExitManager_RegisterCallback (0::nat) fresh) = [0]"
  by code_simp

text \<open>
  C7. With \<^verbatim>\<open>DefaultSingletonTraits\<close>, \<open>kRegisterAtExit\<close> is false, no call of
  \<^verbatim>\<open>get()\<close> enqueues a callback, and \<^verbatim>\<open>Traits::Delete\<close> is never invoked,
  for any number of calls and any schedule, nor by \<^verbatim>\<open>OnExit\<close> after them.
\<close>

theorem C7_default_traits_never_register:
  "\<not> kRegisterAtExit (DefaultSingletonTraits operator_new) \<and>
   AtExit_callbacks (shared (run (DefaultSingletonTraits operator_new) d sched c))
     = AtExit_callbacks (shared c) \<and>
   Delete_calls (shared (run (DefaultSingletonTraits operator_new) d sched c))
     = Delete_calls (shared c) \<and>
   Delete_calls (OnExit (DefaultSingletonTraits operator_new) d
       (shared (run (DefaultSingletonTraits operator_new) d sched c)))
     = Delete_calls (shared c)"
  by (simp add: run_AtExit_callbacks run_Delete_calls DefaultSingletonTraits_def OnExit_def)

text \<open>
  C10. \<^verbatim>\<open>OnExit\<close> is a no-op: it leaves the whole process state as it is, so the
  state word keeps its value and the instance is not handed to \<^verbatim>\<open>Traits::Delete\<close>
  (the log of the invocations of \<^verbatim>\<open>Delete\<close> is not the one that the commented-out
  first statement of the body would leave).
\<close>

theorem C10_OnExit_does_nothing:
  "OnExit T d s = s \<and> Delete_calls (OnExit T d s) = Delete_calls s \<and>
   instance_word (OnExit T d s) d = instance_word s d \<and>
   Delete_calls (OnExit T d s) \<noteq> Delete_calls (Traits_Delete (instance_word s d) s)"
  by (simp add: OnExit_def Traits_Delete_def)

subsection \<open>Two differentiating types\<close>



end
